theory Spec2Isabelle
  imports Main "HOL-Library.Word" "HOL-Library.Sublist"
begin

section \<open>JavaScript strings\<close>

text \<open>
  A JavaScript string is a sequence of UTF-16 code units, and a regular expression without
  the \<open>u\<close> flag works on code units. \<open>js\<close> turns a literal of Latin-1 characters
  into its code units (a Latin-1 character is one code unit of the same value).
\<close>

type_synonym jschar = "16 word"
type_synonym jsstring = "jschar list"

definition js :: "string \<Rightarrow> jsstring" where
  "js s = map of_char s"

definition newline :: jschar where
  "newline = 0x0A"

definition dquote :: jschar where
  "dquote = 0x22"

text \<open>
  The line terminators of ECMAScript: LF, CR, LS and PS. The regular expression atom
  \<open>.\<close> matches every code unit but these.
\<close>

definition is_line_terminator :: "jschar \<Rightarrow> bool" where
  "is_line_terminator c \<longleftrightarrow> c = 0x0A \<or> c = 0x0D \<or> c = 0x2028 \<or> c = 0x2029"

text \<open>
  What \<open>String.prototype.trim\<close> removes: the white space code points (TAB, VT, FF, SP,
  NBSP, ZWNBSP and the space separators) and the line terminators.
\<close>

definition is_white_space :: "jschar \<Rightarrow> bool" where
  "is_white_space c \<longleftrightarrow>
     c = 0x09 \<or> c = 0x0B \<or> c = 0x0C \<or> c = 0x20 \<or> c = 0xA0 \<or> c = 0x1680 \<or>
     (0x2000 \<le> c \<and> c \<le> 0x200A) \<or> c = 0x202F \<or> c = 0x205F \<or> c = 0x3000 \<or>
     c = 0xFEFF \<or> is_line_terminator c"

definition trim :: "jsstring \<Rightarrow> jsstring" where
  "trim s = rev (dropWhile is_white_space (rev (dropWhile is_white_space s)))"

text \<open>
  \<open>s.split('\n')\<close>: the pieces between the newlines; the empty string gives one empty
  piece. The second case of the inner \<open>case\<close> is never taken, since the result of
  \<open>split_newline\<close> is never empty.
\<close>

fun split_newline :: "jsstring \<Rightarrow> jsstring list" where
  "split_newline [] = [[]]"
| "split_newline (c # cs) =
     (if c = newline then [] # split_newline cs
      else (case split_newline cs of l # ls \<Rightarrow> (c # l) # ls | [] \<Rightarrow> [[c]]))"

section \<open>The regular expressions\<close>

definition start_marker :: jsstring where
  "start_marker = js ''[SUGGESTIONS]''"

definition end_marker :: jsstring where
  "end_marker = js ''[/SUGGESTIONS]''"

text \<open>
  \<open>[\s\S]*?\<close> followed by a literal: the lazy star first tries the literal where it
  stands, and only when that fails consumes one more code unit (any code unit is in
  \<open>[\s\S]\<close>). The result is the text consumed by the star and the text after the literal.
\<close>

fun lazy_any_until :: "jsstring \<Rightarrow> jsstring \<Rightarrow> (jsstring \<times> jsstring) option" where
  "lazy_any_until lit [] = (if lit = [] then Some ([], []) else None)"
| "lazy_any_until lit (c # cs) =
     (if prefix lit (c # cs) then Some ([], drop (length lit) (c # cs))
      else map_option (\<lambda>(cap, rest). (c # cap, rest)) (lazy_any_until lit cs))"

text \<open>
  \<open>/\[SUGGESTIONS\]([\s\S]*?)\[\/SUGGESTIONS\]/\<close> tried at the start of the text: the
  capture group and the text after the match.
\<close>

definition block_at :: "jsstring \<Rightarrow> (jsstring \<times> jsstring) option" where
  "block_at s =
     (if prefix start_marker s then lazy_any_until end_marker (drop (length start_marker) s)
      else None)"

text \<open>
  The search of the regular expression through the text, leftmost start first: the text
  before the match, the capture group and the text after the match.
\<close>

fun match_block :: "jsstring \<Rightarrow> (jsstring \<times> jsstring \<times> jsstring) option" where
  "match_block [] = None"
| "match_block (c # cs) =
     (case block_at (c # cs) of
        Some (cap, rest) \<Rightarrow> Some ([], cap, rest)
      | None \<Rightarrow> map_option (\<lambda>(before, cap, rest). (c # before, cap, rest)) (match_block cs))"

text \<open>
  \<open>(.*?)"\<close> after an opening quote: the lazy star tries the closing quote first, and
  otherwise consumes one code unit that is not a line terminator.
\<close>

fun lazy_dot_until_quote :: "jsstring \<Rightarrow> jsstring option" where
  "lazy_dot_until_quote [] = None"
| "lazy_dot_until_quote (c # cs) =
     (if c = dquote then Some []
      else if is_line_terminator c then None
      else map_option ((#) c) (lazy_dot_until_quote cs))"

text \<open>\<open>s.match(/"(.*?)"/)\<close>: the capture group of the leftmost match, \<open>None\<close> for null.\<close>

fun match_quoted :: "jsstring \<Rightarrow> jsstring option" where
  "match_quoted [] = None"
| "match_quoted (c # cs) =
     (case (if c = dquote then lazy_dot_until_quote cs else None) of
        Some cap \<Rightarrow> Some cap
      | None \<Rightarrow> match_quoted cs)"

text \<open>
  A match of \<open>lazy_any_until\<close>, \<open>block_at\<close> and \<open>match_block\<close> leaves less text than
  it was given; the global replacement below terminates by it.
\<close>

lemma lazy_any_until_length:
  "lazy_any_until lit s = Some (cap, rest) \<Longrightarrow> length cap + length lit + length rest = length s"
proof (induction s arbitrary: cap)
  case Nil
  then show ?case by (simp split: if_splits)
next
  case (Cons c cs)
  show ?case
  proof (cases "prefix lit (c # cs)")
    case True
    with Cons.prems have "cap = []" "rest = drop (length lit) (c # cs)" by simp_all
    moreover from True have "length lit \<le> length (c # cs)" by (rule prefix_length_le)
    ultimately show ?thesis by simp
  next
    case False
    with Cons.prems obtain cap' where "lazy_any_until lit cs = Some (cap', rest)" "cap = c # cap'"
      by auto
    with Cons.IH show ?thesis by fastforce
  qed
qed

lemma block_at_length:
  "block_at s = Some (cap, rest) \<Longrightarrow> length rest < length s"
proof -
  assume a: "block_at s = Some (cap, rest)"
  then have p: "prefix start_marker s"
    and l: "lazy_any_until end_marker (drop (length start_marker) s) = Some (cap, rest)"
    by (simp_all add: block_at_def split: if_splits)
  from lazy_any_until_length [OF l] have "length rest + length end_marker \<le> length s" by simp
  moreover have "length end_marker = 14" by (simp add: end_marker_def js_def)
  ultimately show ?thesis by simp
qed

lemma match_block_length:
  "match_block s = Some (before, cap, rest) \<Longrightarrow> length rest < length s"
proof (induction s arbitrary: before)
  case Nil
  then show ?case by simp
next
  case (Cons c cs)
  show ?case
  proof (cases "block_at (c # cs)")
    case None
    with Cons.prems obtain b where "match_block cs = Some (b, cap, rest)" by auto
    with Cons.IH have "length rest < length cs" by blast
    then show ?thesis by simp
  next
    case (Some p)
    with Cons.prems have "block_at (c # cs) = Some (cap, rest)" by (cases p) simp
    then show ?thesis by (rule block_at_length)
  qed
qed

text \<open>
  \<open>s.replace(/\[SUGGESTIONS\][\s\S]*?\[\/SUGGESTIONS\]/g, '')\<close>: every match is replaced
  by the empty string, and the search goes on in the text after the match.
\<close>

function strip_blocks :: "jsstring \<Rightarrow> jsstring" where
  "strip_blocks s =
     (case match_block s of
        None \<Rightarrow> s
      | Some (before, cap, rest) \<Rightarrow> before @ strip_blocks rest)"
  by pat_completeness auto
termination
  by (relation "measure length") (auto dest: match_block_length)

declare strip_blocks.simps [simp del]

section \<open>The stream accumulator and the suggestion parser\<close>

text \<open>
  The text shown after each delta (the local \<open>displayText\<close> of
  \<open>sendMessageAndStreamResponse\<close>): the buffer without its closed suggestion blocks, trimmed.
\<close>

definition displayText :: "jsstring \<Rightarrow> jsstring" where
  "displayText bufferedText = trim (strip_blocks bufferedText)"

text \<open>
  The pipeline of \<open>processAndDisplaySuggestions\<close> on the trimmed capture group
  (\<open>suggestionsText\<close>): split on newlines, match the quoted text of each trimmed
  line, drop the lines without a match (\<open>filter(Boolean)\<close> keeps every match array,
  also one with an empty capture) and take the capture groups.
\<close>

definition quoted_lines :: "jsstring \<Rightarrow> jsstring list" where
  "quoted_lines suggestionsText =
     List.map_filter (\<lambda>s. match_quoted (trim s)) (split_newline suggestionsText)"

text \<open>
  The local \<open>suggestions\<close> of \<open>processAndDisplaySuggestions\<close>, and the empty list
  where the function returns before computing it (no match, or an empty capture group,
  which is falsy).
\<close>

definition suggestions :: "jsstring \<Rightarrow> jsstring list" where
  "suggestions fullResponse =
     (case match_block fullResponse of
        None \<Rightarrow> []
      | Some (before, cap, rest) \<Rightarrow> if cap = [] then [] else quoted_lines (trim cap))"

section \<open>The shape of a well-formed block\<close>

text \<open>
  The inputs the claims about well-formed blocks speak of, not part of the program. A line
  is given by the text before its first quote, the quoted text and the rest of the line:
  \<open>quoted_line\<close> is the line, \<open>quoted_text\<close> the content between its first pair of
  quotes. In a well-formed line the text before the quoted string has no quote, the quoted
  text has no quote and no line terminator, and no part has a newline.
  \<open>join_lines\<close> puts a newline between the lines.
\<close>

definition quoted_line :: "jsstring \<times> jsstring \<times> jsstring \<Rightarrow> jsstring" where
  "quoted_line l = (case l of (pre, s, post) \<Rightarrow> pre @ dquote # s @ dquote # post)"

definition quoted_text :: "jsstring \<times> jsstring \<times> jsstring \<Rightarrow> jsstring" where
  "quoted_text l = (case l of (pre, s, post) \<Rightarrow> s)"

definition well_formed_line :: "jsstring \<times> jsstring \<times> jsstring \<Rightarrow> bool" where
  "well_formed_line l =
     (case l of (pre, s, post) \<Rightarrow>
        dquote \<notin> set pre \<and> newline \<notin> set pre \<and> dquote \<notin> set s \<and>
        list_all (\<lambda>c. \<not> is_line_terminator c) s \<and> newline \<notin> set post)"

fun join_lines :: "jsstring list \<Rightarrow> jsstring" where
  "join_lines [] = []"
| "join_lines [l] = l"
| "join_lines (l # l' # ls) = l @ newline # join_lines (l' # ls)"

section \<open>The page\<close>

text \<open>
  The elements the script creates are kept in a store, \<open>heap\<close>, and named by their index
  there; a new element goes to the end of the store, so its reference is fresh, and an
  element removed from the document stays in the store, unlinked. \<open>chatContainer\<close> holds
  the references of the children of the chat container, in document order. A message is the
  wrapper \<open>div.message.{sender}-message\<close> with its inner content element; a suggestions
  container holds the texts of its chips, whose click handler calls
  \<open>sendMessageAndStreamResponse\<close> with the text. Scroll position, element heights and the
  console are not part of the model.

  The content of a message is nothing (a new \<open>div\<close>), a text (after an assignment to
  \<open>textContent\<close>) or the elements the browser parses from an HTML text (after an
  assignment to \<open>innerHTML\<close>).
\<close>

datatype sender = User | Bot

datatype content = NoContent | TextContent jsstring | InnerHTML jsstring

datatype element = MessageEl sender content | SuggestionsEl "jsstring list"

datatype button_content = SendButtonIcon | LoadingSpinner

text \<open>The session handle returned by \<open>ai.chats.create\<close>, with the key it was made for.\<close>

datatype Chat = Chat jsstring

record page =
  heap :: "element list"
  chatContainer :: "nat list"
  input_value :: jsstring
  input_default :: jsstring
  input_disabled :: bool
  input_placeholder :: jsstring
  input_focused :: bool
  send_disabled :: bool
  send_content :: button_content
  chat :: "Chat option"
  remote_calls :: "jsstring list"

text \<open>
  \<open>remote_calls\<close> is the log of the messages handed to \<open>chat.sendMessageStream\<close>, one
  entry for each call. \<open>input_default\<close> is the default value of the text area, to which
  \<open>chatForm.reset()\<close> returns it; it comes from the HTML page.
\<close>

text \<open>
  What a value thrown by the remote library is: an \<open>Error\<close> with its message, or any
  other value, given by its text (a thrown string, say).
\<close>

datatype thrown = ErrorObject jsstring | NotAnError jsstring

text \<open>
  What one call of \<open>chat.sendMessageStream\<close> does: the promise rejects, or it gives a
  stream that yields its chunks and then ends (\<open>None\<close>) or throws. The \<open>text\<close> of a chunk
  is a string or undefined.
\<close>

datatype response = Rejected thrown | Stream "jsstring option list" "thrown option"

definition appendMessage :: "sender \<Rightarrow> page \<Rightarrow> nat \<times> page" where
  "appendMessage sender st =
     (length (heap st),
      st\<lparr>heap := heap st @ [MessageEl sender NoContent],
         chatContainer := chatContainer st @ [length (heap st)]\<rparr>)"

text \<open>An assignment to \<open>textContent\<close> or \<open>innerHTML\<close> of a message's content element.\<close>

definition set_content :: "nat \<Rightarrow> content \<Rightarrow> page \<Rightarrow> page" where
  "set_content el c st =
     (if el < length (heap st)
      then st\<lparr>heap := (heap st)[el :=
             (case heap st ! el of MessageEl sender old \<Rightarrow> MessageEl sender c | e \<Rightarrow> e)]\<rparr>
      else st)"

definition setLoading :: "bool \<Rightarrow> page \<Rightarrow> page" where
  "setLoading isLoading st =
     st\<lparr>input_disabled := isLoading, send_disabled := isLoading,
        send_content := (if isLoading then LoadingSpinner else SendButtonIcon)\<rparr>"

definition processAndDisplaySuggestions :: "jsstring \<Rightarrow> page \<Rightarrow> page" where
  "processAndDisplaySuggestions fullResponse st =
     (case match_block fullResponse of
        None \<Rightarrow> st
      | Some (before, cap, rest) \<Rightarrow>
          if cap = [] then st
          else let suggestionsText = trim cap;
                   suggestions = quoted_lines suggestionsText
               in if length suggestions = 0 then st
                  else st\<lparr>heap := heap st @ [SuggestionsEl suggestions],
                          chatContainer := chatContainer st @ [length (heap st)]\<rparr>)"

text \<open>
  \<open>document.querySelector('.suggestions-container')\<close> searches the whole document, in
  document order, and \<open>remove()\<close> takes what it finds out of the document. An element
  of that class is a suggestions container, or an element of the HTML text of a bubble
  (\<open>marked.parse\<close> lets HTML through, and the error message is not escaped).
  \<open>remove_in_html\<close> is what the browser does there: for an HTML text, \<open>None\<close> when
  no element parsed from it has the class, and otherwise the HTML text of what is left when
  the first such element is removed. A text and the chips of a container hold no such
  element. The HTML page itself is not among the sources: the model takes it that no
  element of the page outside the children of the chat container has the class.
\<close>

datatype found = NotFound | FoundChild | FoundInside element

definition find_in_child :: "(jsstring \<Rightarrow> jsstring option) \<Rightarrow> element \<Rightarrow> found" where
  "find_in_child remove_in_html e =
     (case e of
        SuggestionsEl chips \<Rightarrow> FoundChild
      | MessageEl sender c \<Rightarrow>
          (case c of
             InnerHTML html \<Rightarrow>
               (case remove_in_html html of
                  None \<Rightarrow> NotFound
                | Some html' \<Rightarrow> FoundInside (MessageEl sender (InnerHTML html')))
           | _ \<Rightarrow> NotFound))"

text \<open>
  The search through the children of the chat container: the store and the children after
  the removal, \<open>None\<close> when nothing is found.
\<close>

fun remove_first_found ::
  "(jsstring \<Rightarrow> jsstring option) \<Rightarrow> element list \<Rightarrow> nat list \<Rightarrow> (element list \<times> nat list) option"
where
  "remove_first_found remove_in_html h [] = None"
| "remove_first_found remove_in_html h (el # els) =
     (case (if el < length h then find_in_child remove_in_html (h ! el) else NotFound) of
        FoundChild \<Rightarrow> Some (h, els)
      | FoundInside e \<Rightarrow> Some (h[el := e], el # els)
      | NotFound \<Rightarrow>
          map_option (\<lambda>(h', els'). (h', el # els')) (remove_first_found remove_in_html h els))"

definition remove_existing_suggestions :: "(jsstring \<Rightarrow> jsstring option) \<Rightarrow> page \<Rightarrow> page" where
  "remove_existing_suggestions remove_in_html st =
     (case remove_first_found remove_in_html (heap st) (chatContainer st) of
        None \<Rightarrow> st
      | Some (h, els) \<Rightarrow> st\<lparr>heap := h, chatContainer := els\<rparr>)"

text \<open>\<open>bufferedText += chunk.text\<close>: an undefined text is appended as \<open>"undefined"\<close>.\<close>

definition chunk_text :: "jsstring option \<Rightarrow> jsstring" where
  "chunk_text chunk = (case chunk of Some t \<Rightarrow> t | None \<Rightarrow> js ''undefined'')"

text \<open>
  The body of the \<open>for await\<close> loop, once for each chunk; \<open>marked\<close> is the markdown
  renderer \<open>marked.parse\<close>, \<open>botMessageEl\<close> the bubble of the answer. The result is the
  buffer and the page after the last chunk.
\<close>

fun stream_loop ::
  "(jsstring \<Rightarrow> jsstring) \<Rightarrow> nat \<Rightarrow> jsstring option list \<Rightarrow> jsstring \<times> page \<Rightarrow> jsstring \<times> page"
where
  "stream_loop marked botMessageEl [] (bufferedText, st) = (bufferedText, st)"
| "stream_loop marked botMessageEl (chunk # chunks) (bufferedText, st) =
     stream_loop marked botMessageEl chunks
       (bufferedText @ chunk_text chunk,
        set_content botMessageEl
          (InnerHTML (marked (displayText (bufferedText @ chunk_text chunk)))) st)"

text \<open>
  The \<open>try\<close> block: \<open>Inr\<close> the page when it completes, \<open>Inl\<close> the value thrown and the
  page at that moment when the call or the stream throws.
\<close>

definition try_block ::
  "(jsstring \<Rightarrow> jsstring) \<Rightarrow> response \<Rightarrow> jsstring \<Rightarrow> nat \<Rightarrow> page \<Rightarrow> (thrown \<times> page) + page"
where
  "try_block marked resp userMessage botMessageEl st =
     (let st1 = st\<lparr>remote_calls := remote_calls st @ [userMessage]\<rparr>
      in case resp of
           Rejected e \<Rightarrow> Inl (e, st1)
         | Stream chunks end \<Rightarrow>
             (case stream_loop marked botMessageEl chunks ([], st1) of
                (bufferedText, st2) \<Rightarrow>
                  (case end of
                     Some e \<Rightarrow> Inl (e, st2)
                   | None \<Rightarrow> Inr (processAndDisplaySuggestions bufferedText st2))))"

text \<open>The local \<open>errorMessage\<close> of the \<open>catch\<close> block.\<close>

definition errorMessage :: "thrown \<Rightarrow> jsstring" where
  "errorMessage error =
     (case error of
        ErrorObject message \<Rightarrow> message
      | NotAnError v \<Rightarrow> js ''An unknown error occurred.'')"

definition sendMessageAndStreamResponse ::
  "(jsstring \<Rightarrow> jsstring) \<Rightarrow> (jsstring \<Rightarrow> jsstring option) \<Rightarrow> response \<Rightarrow> jsstring \<Rightarrow>
     page \<Rightarrow> page"
where
  "sendMessageAndStreamResponse marked remove_in_html resp userMessage st =
     (if userMessage = [] \<or> chat st = None then st
      else case appendMessage User st of (userEl, st1) \<Rightarrow>
        (case appendMessage Bot (setLoading True (set_content userEl (TextContent userMessage) st1)) of
           (botMessageEl, st2) \<Rightarrow>
             (let st3 = remove_existing_suggestions remove_in_html st2;
                  st4 = (case try_block marked resp userMessage botMessageEl st3 of
                           Inr st' \<Rightarrow> st'
                         | Inl (error, st') \<Rightarrow>
                             set_content botMessageEl
                               (InnerHTML
                                 (js ''Ocorreu um erro. Por favor, tente novamente.<br><br><code>'' @
                                  errorMessage error @ js ''</code>'')) st')
              in (setLoading False st4)\<lparr>input_focused := True\<rparr>)))"

definition handleFormSubmit ::
  "(jsstring \<Rightarrow> jsstring) \<Rightarrow> (jsstring \<Rightarrow> jsstring option) \<Rightarrow> response \<Rightarrow> page \<Rightarrow> page"
where
  "handleFormSubmit marked remove_in_html resp st =
     (let userMessage = trim (input_value st)
      in if userMessage = [] then st
         else sendMessageAndStreamResponse marked remove_in_html resp userMessage
                (st\<lparr>input_value := input_default st\<rparr>))"

definition greeting :: jsstring where
  "greeting = js (''Ol'' @ [CHR 0xE1] @
     ''! Sou o NeoOtto, o seu consultor de IA. Em que posso ajudar a sua empresa hoje? '' @
     ''Por exemplo, pode perguntar-me sobre como otimizar a log'' @ [CHR 0xED] @
     ''stica na sua PME.'')"

definition displayInitialGreeting :: "(jsstring \<Rightarrow> jsstring) \<Rightarrow> page \<Rightarrow> page" where
  "displayInitialGreeting marked st =
     (case appendMessage Bot st of
        (botMessageEl, st1) \<Rightarrow> set_content botMessageEl (InnerHTML (marked greeting)) st1)"

definition configuration_error_html :: jsstring where
  "configuration_error_html = js (''<strong>Erro de Configura'' @ [CHR 0xE7, CHR 0xE3] @
     ''o:</strong> A chave da API (API_KEY) n'' @ [CHR 0xE3] @
     ''o foi encontrada. Esta aplica'' @ [CHR 0xE7, CHR 0xE3] @
     ''o requer que a chave seja configurada no ambiente de hospedagem. '' @
     ''Sem ela, o assistente n'' @ [CHR 0xE3] @ ''o pode funcionar.'')"

definition disabled_placeholder :: jsstring where
  "disabled_placeholder = js (''Aplica'' @ [CHR 0xE7, CHR 0xE3] @
     ''o desativada - API_KEY n'' @ [CHR 0xE3] @ ''o configurada.'')"

definition api_key_missing :: thrown where
  "api_key_missing = ErrorObject (js (''A vari'' @ [CHR 0xE1] @
     ''vel de ambiente API_KEY n'' @ [CHR 0xE3] @ ''o foi definida.''))"

text \<open>
  The \<open>try\<close> block of \<open>initializeApp\<close> up to the creation of the session: \<open>API_KEY\<close> is
  the value of \<open>process.env.API_KEY\<close> (\<open>None\<close> for undefined; the empty string is falsy
  as well), \<open>create\<close> is what \<open>new GoogleGenAI\<close> and \<open>ai.chats.create\<close> do with the key,
  a session or a thrown value.
\<close>

definition create_session ::
  "(jsstring \<Rightarrow> thrown + Chat) \<Rightarrow> jsstring option \<Rightarrow> thrown + Chat"
where
  "create_session create API_KEY =
     (case API_KEY of
        None \<Rightarrow> Inl api_key_missing
      | Some key \<Rightarrow> if key = [] then Inl api_key_missing else create key)"

definition initializeApp ::
  "(jsstring \<Rightarrow> jsstring) \<Rightarrow> (jsstring \<Rightarrow> thrown + Chat) \<Rightarrow> jsstring option \<Rightarrow> page \<Rightarrow> page"
where
  "initializeApp marked create API_KEY st =
     (case create_session create API_KEY of
        Inr session \<Rightarrow> displayInitialGreeting marked (st\<lparr>chat := Some session\<rparr>)
      | Inl error \<Rightarrow>
          (case appendMessage Bot st of
             (errorContainer, st1) \<Rightarrow>
               (set_content errorContainer (InnerHTML configuration_error_html) st1)
                 \<lparr>input_disabled := True, send_disabled := True,
                  input_placeholder := disabled_placeholder\<rparr>))"

text \<open>
  The page as the script finds it: no session yet (\<open>let chat: Chat | null = null\<close>), no
  call made, and the form as the HTML page gives it, here with an empty, enabled input.
\<close>

definition initial_page :: page where
  "initial_page =
     \<lparr>heap = [], chatContainer = [], input_value = [], input_default = [],
      input_disabled = False, input_placeholder = [], input_focused = False,
      send_disabled = False, send_content = SendButtonIcon, chat = None, remote_calls = []\<rparr>"

text \<open>What the chat container shows: its children, in order.\<close>

definition message_log :: "page \<Rightarrow> element list" where
  "message_log st = map ((!) (heap st)) (chatContainer st)"

text \<open>No child of the chat container is a dangling reference.\<close>

definition valid_refs :: "page \<Rightarrow> bool" where
  "valid_refs st \<longleftrightarrow> list_all (\<lambda>el. el < length (heap st)) (chatContainer st)"

section \<open>What the block expression matches\<close>

text \<open>
  Both markers begin with a bracket that occurs nowhere else in them, so an occurrence of a
  marker cannot overlap a later occurrence of the same marker.
\<close>

lemma prefix_no_self_overlap:
  assumes "lit \<noteq> []" "hd lit \<notin> set (tl lit)" "prefix lit (t @ lit @ r)"
  shows "t = [] \<or> prefix lit t"
proof (cases t)
  case Nil
  then show ?thesis by simp
next
  case (Cons a t')
  from assms(3) have "prefix lit t \<or> (\<exists>us. lit = t @ us \<and> prefix us (lit @ r))"
    by (simp add: prefix_append)
  then show ?thesis
  proof
    assume "prefix lit t" then show ?thesis by simp
  next
    assume "\<exists>us. lit = t @ us \<and> prefix us (lit @ r)"
    then obtain us where us: "lit = t @ us" "prefix us (lit @ r)" by blast
    show ?thesis
    proof (cases us)
      case Nil
      with us have "lit = t" by simp
      then show ?thesis by simp
    next
      case (Cons u us')
      with us(2) assms(1) have "u = hd lit" by (cases lit) (auto simp: prefix_def)
      moreover from us(1) Cons \<open>t = a # t'\<close> have "u \<in> set (tl lit)" by simp
      ultimately show ?thesis using assms(2) by simp
    qed
  qed
qed

lemma lazy_any_until_sound:
  "lazy_any_until lit s = Some (cap, rest) \<Longrightarrow> s = cap @ lit @ rest"
proof (induction s arbitrary: cap)
  case Nil
  then show ?case by (simp split: if_splits)
next
  case (Cons c cs)
  show ?case
  proof (cases "prefix lit (c # cs)")
    case True
    with Cons.prems have "cap = []" "rest = drop (length lit) (c # cs)" by simp_all
    moreover from True obtain zs where "c # cs = lit @ zs" by (auto simp: prefix_def)
    ultimately show ?thesis by simp
  next
    case False
    with Cons.prems obtain cap' where "lazy_any_until lit cs = Some (cap', rest)" "cap = c # cap'"
      by auto
    with Cons.IH show ?thesis by fastforce
  qed
qed

lemma lazy_any_until_first:
  assumes "lit \<noteq> []" "hd lit \<notin> set (tl lit)"
  shows "\<not> sublist lit cap \<Longrightarrow> lazy_any_until lit (cap @ lit @ rest) = Some (cap, rest)"
proof (induction cap)
  case Nil
  from assms(1) show ?case by (cases lit) simp_all
next
  case (Cons c cap)
  have "\<not> prefix lit ((c # cap) @ lit @ rest)"
  proof
    assume "prefix lit ((c # cap) @ lit @ rest)"
    from prefix_no_self_overlap [OF assms this] have "prefix lit (c # cap)" by simp
    with Cons.prems show False by auto
  qed
  moreover from Cons.prems have "\<not> sublist lit cap" by (auto simp: sublist_Cons_right)
  ultimately show ?case using Cons.IH by simp
qed

lemma lazy_any_until_None:
  "\<not> sublist lit s \<Longrightarrow> lazy_any_until lit s = None"
proof (rule ccontr)
  assume n: "\<not> sublist lit s" and "lazy_any_until lit s \<noteq> None"
  then obtain cap rest where "lazy_any_until lit s = Some (cap, rest)" by auto
  then have "s = cap @ lit @ rest" by (rule lazy_any_until_sound)
  with n show False by simp
qed

lemma start_marker_head: "start_marker \<noteq> [] \<and> hd start_marker \<notin> set (tl start_marker)"
  by (simp add: start_marker_def js_def)

lemma end_marker_head: "end_marker \<noteq> [] \<and> hd end_marker \<notin> set (tl end_marker)"
  by (simp add: end_marker_def js_def)

lemma block_at_sound:
  "block_at s = Some (cap, rest) \<Longrightarrow> s = start_marker @ cap @ end_marker @ rest"
proof -
  assume a: "block_at s = Some (cap, rest)"
  then have p: "prefix start_marker s"
    and l: "lazy_any_until end_marker (drop (length start_marker) s) = Some (cap, rest)"
    by (simp_all add: block_at_def split: if_splits)
  from p obtain zs where zs: "s = start_marker @ zs" by (auto simp: prefix_def)
  with l have "zs = cap @ end_marker @ rest" by (simp add: lazy_any_until_sound)
  with zs show ?thesis by simp
qed

lemma match_block_sound:
  "match_block s = Some (before, cap, rest) \<Longrightarrow>
     s = before @ start_marker @ cap @ end_marker @ rest"
proof (induction s arbitrary: before)
  case Nil
  then show ?case by simp
next
  case (Cons c cs)
  show ?case
  proof (cases "block_at (c # cs)")
    case None
    with Cons.prems obtain b where "match_block cs = Some (b, cap, rest)" "before = c # b"
      by auto
    with Cons.IH show ?thesis by fastforce
  next
    case (Some p)
    with Cons.prems have "block_at (c # cs) = Some (cap, rest)" "before = []"
      by (cases p; simp)+
    then show ?thesis by (simp add: block_at_sound)
  qed
qed

lemma block_at_first:
  "\<not> sublist end_marker cap \<Longrightarrow>
     block_at (start_marker @ cap @ end_marker @ rest) = Some (cap, rest)"
  using end_marker_head by (simp add: block_at_def lazy_any_until_first)

lemma match_block_first:
  assumes "\<not> sublist end_marker cap"
  shows "\<not> sublist start_marker before \<Longrightarrow>
     match_block (before @ start_marker @ cap @ end_marker @ rest) = Some (before, cap, rest)"
proof (induction before)
  case Nil
  have "start_marker @ cap @ end_marker @ rest \<noteq> []" using start_marker_head by simp
  then obtain c cs where "start_marker @ cap @ end_marker @ rest = c # cs"
    by (cases "start_marker @ cap @ end_marker @ rest") auto
  with block_at_first [OF assms, of rest] show ?case by simp
next
  case (Cons c before)
  have "\<not> prefix start_marker ((c # before) @ start_marker @ cap @ end_marker @ rest)"
  proof
    assume "prefix start_marker ((c # before) @ start_marker @ cap @ end_marker @ rest)"
    with prefix_no_self_overlap [of start_marker "c # before" "cap @ end_marker @ rest"]
      start_marker_head
    have "prefix start_marker (c # before)" by simp
    with Cons.prems show False by auto
  qed
  then have "block_at ((c # before) @ start_marker @ cap @ end_marker @ rest) = None"
    by (simp add: block_at_def)
  moreover from Cons.prems have "\<not> sublist start_marker before"
    by (auto simp: sublist_Cons_right)
  ultimately show ?case using Cons.IH by simp
qed

lemma match_block_None:
  "\<not> (\<exists>before cap rest. s = before @ start_marker @ cap @ end_marker @ rest) \<Longrightarrow>
     match_block s = None"
proof (rule ccontr)
  assume n: "\<not> (\<exists>before cap rest. s = before @ start_marker @ cap @ end_marker @ rest)"
    and "match_block s \<noteq> None"
  then obtain before cap rest where "match_block s = Some (before, cap, rest)" by auto
  then have "s = before @ start_marker @ cap @ end_marker @ rest" by (rule match_block_sound)
  with n show False by blast
qed

lemma strip_blocks_None: "match_block s = None \<Longrightarrow> strip_blocks s = s"
  by (simp add: strip_blocks.simps)

lemma strip_blocks_first:
  "\<not> sublist start_marker before \<Longrightarrow> \<not> sublist end_marker cap \<Longrightarrow>
     strip_blocks (before @ start_marker @ cap @ end_marker @ rest) = before @ strip_blocks rest"
  by (subst strip_blocks.simps) (simp add: match_block_first)

lemma lazy_any_until_complete:
  "sublist lit s \<Longrightarrow> lazy_any_until lit s \<noteq> None"
proof (induction s)
  case Nil
  then show ?case by simp
next
  case (Cons c cs)
  then show ?case by (cases lit) (auto simp: sublist_Cons_right)
qed

lemma match_block_complete:
  "match_block (before @ start_marker @ cap @ end_marker @ rest) \<noteq> None"
proof (induction before)
  case Nil
  have "lazy_any_until end_marker (cap @ end_marker @ rest) \<noteq> None"
    by (rule lazy_any_until_complete) simp
  then have "block_at (start_marker @ cap @ end_marker @ rest) \<noteq> None"
    by (simp add: block_at_def)
  moreover obtain c cs where "start_marker @ cap @ end_marker @ rest = c # cs"
    using start_marker_head by (cases "start_marker @ cap @ end_marker @ rest") auto
  ultimately show ?case by auto
next
  case (Cons c before)
  then show ?case by (auto split: option.splits)
qed

lemma match_block_None_iff:
  "match_block s = None \<longleftrightarrow>
     \<not> (\<exists>before cap rest. s = before @ start_marker @ cap @ end_marker @ rest)"
  using match_block_None [of s] match_block_complete by metis

lemma no_block_after_first_start:
  assumes "s = p @ start_marker @ r" "\<not> sublist start_marker p" "\<not> sublist end_marker r"
  shows "match_block s = None"
  using assms(1,2)
proof (induction p arbitrary: s)
  case Nil
  show ?case
  proof (rule ccontr)
    assume "match_block s \<noteq> None"
    then obtain b c q where "match_block s = Some (b, c, q)" by auto
    then have "s = b @ start_marker @ c @ end_marker @ q" by (rule match_block_sound)
    with Nil have e: "start_marker @ r = b @ start_marker @ c @ end_marker @ q" by simp
    show False
    proof (cases b)
      case Nil
      with e have "r = c @ end_marker @ q" by simp
      with assms(3) show False by simp
    next
      case (Cons x b')
      from e have "prefix start_marker (b @ start_marker @ c @ end_marker @ q)"
        by (metis prefixI)
      with prefix_no_self_overlap [of start_marker b "c @ end_marker @ q"] start_marker_head Cons
      have "prefix start_marker b" by simp
      then obtain z where "b = start_marker @ z" by (auto simp: prefix_def)
      with e have "r = z @ start_marker @ c @ end_marker @ q" by simp
      then have "sublist end_marker r"
        by (metis append.assoc sublist_appendI)
      with assms(3) show False by simp
    qed
  qed
next
  case (Cons x p)
  have "\<not> prefix start_marker ((x # p) @ start_marker @ r)"
  proof
    assume "prefix start_marker ((x # p) @ start_marker @ r)"
    with prefix_no_self_overlap [of start_marker "x # p" r] start_marker_head
    have "prefix start_marker (x # p)" by simp
    with Cons.prems show False by auto
  qed
  with Cons.prems have "block_at s = None" by (simp add: block_at_def)
  moreover from Cons.prems have "\<not> sublist start_marker p" by (auto simp: sublist_Cons_right)
  then have "match_block (p @ start_marker @ r) = None" using Cons.IH by simp
  ultimately show ?case using Cons.prems by simp
qed

lemma suggestions_None: "match_block s = None \<Longrightarrow> suggestions s = []"
  by (simp add: suggestions_def)

lemma processAndDisplaySuggestions_None:
  "match_block s = None \<Longrightarrow> processAndDisplaySuggestions s st = st"
  by (simp add: processAndDisplaySuggestions_def)

lemma strip_blocks_all:
  assumes "\<not> sublist start_marker t0"
    and "\<forall>(b, t) \<in> set blocks. \<not> sublist end_marker b \<and> \<not> sublist start_marker t"
  shows "strip_blocks (t0 @ concat (map (\<lambda>(b, t). start_marker @ b @ end_marker @ t) blocks))
     = t0 @ concat (map snd blocks)"
  using assms
proof (induction blocks arbitrary: t0)
  case Nil
  have "\<not> (\<exists>before cap rest. t0 = before @ start_marker @ cap @ end_marker @ rest)"
  proof
    assume "\<exists>before cap rest. t0 = before @ start_marker @ cap @ end_marker @ rest"
    then have "sublist start_marker t0" by auto
    with Nil show False by simp
  qed
  then show ?case by (simp add: strip_blocks_None match_block_None)
next
  case (Cons x blocks)
  obtain b t where x: "x = (b, t)" by (cases x)
  with Cons.prems have b: "\<not> sublist end_marker b" and t: "\<not> sublist start_marker t"
    and rest: "\<forall>(b, t) \<in> set blocks. \<not> sublist end_marker b \<and> \<not> sublist start_marker t"
    by auto
  have "strip_blocks (t0 @ start_marker @ b @ end_marker @
          (t @ concat (map (\<lambda>(b, t). start_marker @ b @ end_marker @ t) blocks)))
        = t0 @ strip_blocks (t @ concat (map (\<lambda>(b, t). start_marker @ b @ end_marker @ t) blocks))"
    using Cons.prems(1) b by (rule strip_blocks_first)
  also have "strip_blocks (t @ concat (map (\<lambda>(b, t). start_marker @ b @ end_marker @ t) blocks))
        = t @ concat (map snd blocks)"
    using t rest by (rule Cons.IH)
  finally show ?case using x by simp
qed

lemma suggestions_first:
  assumes "\<not> sublist start_marker before" "\<not> sublist end_marker cap"
  shows "suggestions (before @ start_marker @ cap @ end_marker @ rest)
     = (if cap = [] then [] else quoted_lines (trim cap))"
  using assms by (simp add: suggestions_def match_block_first)

section \<open>Trimming, splitting and the quoted text of a line\<close>

lemma trim_Nil: "trim [] = []"
  by (simp add: trim_def)

lemma trim_all_white_space:
  assumes "list_all is_white_space s"
  shows "trim s = []"
proof -
  from assms have d: "dropWhile is_white_space s = []" by (simp add: list_all_iff)
  show ?thesis unfolding trim_def d by simp
qed

lemma trim_white_space_Cons: "is_white_space c \<Longrightarrow> trim (c # s) = trim s"
  by (simp add: trim_def)

lemma trim_white_space_snoc:
  assumes "is_white_space c"
  shows "trim (s @ [c]) = trim s"
proof (cases "list_all is_white_space s")
  case True
  with assms have "list_all is_white_space (s @ [c])" by simp
  with True show ?thesis by (simp add: trim_all_white_space)
next
  case False
  then obtain x where "x \<in> set s" "\<not> is_white_space x" by (auto simp: list_all_iff)
  then have "dropWhile is_white_space (s @ [c]) = dropWhile is_white_space s @ [c]" by simp
  with assms show ?thesis by (simp add: trim_def)
qed

lemma trim_white_space_prepend: "list_all is_white_space ws \<Longrightarrow> trim (ws @ s) = trim s"
  by (induction ws) (simp_all add: trim_white_space_Cons)

lemma trim_white_space_append: "list_all is_white_space ws \<Longrightarrow> trim (s @ ws) = trim s"
proof (induction ws rule: rev_induct)
  case Nil
  then show ?case by simp
next
  case (snoc c ws)
  then have "trim (s @ ws @ [c]) = trim (s @ ws)"
    using trim_white_space_snoc [of c "s @ ws"] by simp
  with snoc show ?case by simp
qed

lemma split_newline_not_Nil: "split_newline s \<noteq> []"
  by (induction s) (auto split: list.splits)

lemma split_newline_snoc:
  "split_newline (s @ [c]) =
     (if c = newline then split_newline s @ [[]]
      else butlast (split_newline s) @ [last (split_newline s) @ [c]])"
proof (induction s)
  case Nil
  then show ?case by simp
next
  case (Cons x s)
  obtain l ls where l: "split_newline s = l # ls"
    using split_newline_not_Nil [of s] by (cases "split_newline s") auto
  obtain l' ls' where l': "split_newline (s @ [c]) = l' # ls'"
    using split_newline_not_Nil [of "s @ [c]"] by (cases "split_newline (s @ [c])") auto
  show ?case
  proof (cases "c = newline")
    case True
    with Cons l l' show ?thesis by auto
  next
    case False
    with Cons l l' show ?thesis by (cases ls) auto
  qed
qed

lemma split_newline_no_newline: "newline \<notin> set l \<Longrightarrow> split_newline l = [l]"
  by (induction l) auto

lemma split_newline_line:
  "newline \<notin> set l \<Longrightarrow> split_newline (l @ newline # s) = l # split_newline s"
  by (induction l) auto

lemma split_newline_join_lines:
  "ls \<noteq> [] \<Longrightarrow> \<forall>l \<in> set ls. newline \<notin> set l \<Longrightarrow> split_newline (join_lines ls) = ls"
proof (induction ls rule: join_lines.induct)
  case 1
  then show ?case by simp
next
  case (2 l)
  then show ?case by (simp add: split_newline_no_newline)
next
  case (3 l l' ls)
  then show ?case by (simp add: split_newline_line)
qed

lemma quoted_lines_ltrim:
  "List.map_filter (\<lambda>l. match_quoted (trim l)) (split_newline (dropWhile is_white_space s))
     = List.map_filter (\<lambda>l. match_quoted (trim l)) (split_newline s)"
proof (induction s)
  case Nil
  then show ?case by simp
next
  case (Cons c s)
  show ?case
  proof (cases "is_white_space c")
    case False
    then show ?thesis by simp
  next
    case True
    obtain l ls where l: "split_newline s = l # ls"
      using split_newline_not_Nil [of s] by (cases "split_newline s") auto
    have "List.map_filter (\<lambda>l. match_quoted (trim l)) (split_newline (c # s))
        = List.map_filter (\<lambda>l. match_quoted (trim l)) (split_newline s)"
      using True l by (simp add: trim_Nil trim_white_space_Cons)
    with True Cons show ?thesis by simp
  qed
qed

lemma quoted_lines_white_space_snoc:
  assumes "is_white_space c"
  shows "List.map_filter (\<lambda>l. match_quoted (trim l)) (split_newline (s @ [c]))
     = List.map_filter (\<lambda>l. match_quoted (trim l)) (split_newline s)"
proof -
  obtain ls l where l: "split_newline s = ls @ [l]"
    using split_newline_not_Nil [of s] by (cases "split_newline s" rule: rev_cases) auto
  show ?thesis
    using assms l
    by (simp add: split_newline_snoc List.map_filter_def trim_Nil trim_white_space_snoc)
qed

lemma quoted_lines_rtrim:
  "List.map_filter (\<lambda>l. match_quoted (trim l))
       (split_newline (rev (dropWhile is_white_space (rev s))))
     = List.map_filter (\<lambda>l. match_quoted (trim l)) (split_newline s)"
proof (induction s rule: rev_induct)
  case Nil
  then show ?case by simp
next
  case (snoc c s)
  then show ?case by (simp add: quoted_lines_white_space_snoc)
qed

lemma quoted_lines_trim: "quoted_lines (trim s) = quoted_lines s"
proof -
  have "trim s = rev (dropWhile is_white_space (rev (dropWhile is_white_space s)))"
    by (simp add: trim_def)
  then show ?thesis
    by (simp only: quoted_lines_def quoted_lines_rtrim quoted_lines_ltrim)
qed

lemma lazy_dot_until_quote_first:
  "dquote \<notin> set s \<Longrightarrow> list_all (\<lambda>c. \<not> is_line_terminator c) s \<Longrightarrow>
     lazy_dot_until_quote (s @ dquote # post) = Some s"
  by (induction s) auto

lemma match_quoted_first:
  "dquote \<notin> set pre \<Longrightarrow> dquote \<notin> set s \<Longrightarrow> list_all (\<lambda>c. \<not> is_line_terminator c) s \<Longrightarrow>
     match_quoted (pre @ dquote # s @ dquote # post) = Some s"
  by (induction pre) (auto simp: lazy_dot_until_quote_first)

lemma dquote_not_white_space: "\<not> is_white_space dquote"
  by (simp add: is_white_space_def is_line_terminator_def dquote_def)

lemma trim_quoted:
  "trim (pre @ dquote # s @ dquote # post)
     = dropWhile is_white_space pre @ dquote # s @ dquote # rev (dropWhile is_white_space (rev post))"
proof -
  have "dropWhile is_white_space (pre @ dquote # s @ dquote # post)
      = dropWhile is_white_space pre @ dquote # s @ dquote # post"
    using dquote_not_white_space by (simp add: dropWhile_append3)
  moreover have "dropWhile is_white_space (rev post @ dquote # rev s @ dquote # rev (dropWhile is_white_space pre))
      = dropWhile is_white_space (rev post) @ dquote # rev s @ dquote # rev (dropWhile is_white_space pre)"
    using dquote_not_white_space by (simp add: dropWhile_append3)
  ultimately show ?thesis by (simp add: trim_def)
qed

lemma match_quoted_line:
  assumes "well_formed_line l"
  shows "match_quoted (trim (quoted_line l)) = Some (quoted_text l)"
proof -
  obtain pre s post where l: "l = (pre, s, post)" by (cases l)
  with assms have "dquote \<notin> set pre" "dquote \<notin> set s" "list_all (\<lambda>c. \<not> is_line_terminator c) s"
    by (simp_all add: well_formed_line_def)
  moreover from this(1) have "dquote \<notin> set (dropWhile is_white_space pre)"
    by (meson set_dropWhileD)
  ultimately show ?thesis using l
    by (simp add: quoted_line_def quoted_text_def trim_quoted match_quoted_first)
qed

lemma map_filter_quoted_lines:
  "list_all well_formed_line ls \<Longrightarrow>
     List.map_filter (\<lambda>l. match_quoted (trim l)) (map quoted_line ls) = map quoted_text ls"
  by (induction ls) (simp_all add: match_quoted_line)

lemma quoted_lines_join:
  assumes "list_all well_formed_line ls"
  shows "quoted_lines (join_lines (map quoted_line ls)) = map quoted_text ls"
proof (cases ls)
  case Nil
  then show ?thesis by (simp add: quoted_lines_def trim_Nil)
next
  case (Cons a as)
  have "\<forall>l \<in> set (map quoted_line ls). newline \<notin> set l"
    using assms by (auto simp: list_all_iff well_formed_line_def quoted_line_def newline_def dquote_def list_all_iff is_line_terminator_def)
  with Cons have "split_newline (join_lines (map quoted_line ls)) = map quoted_line ls"
    by (simp add: split_newline_join_lines)
  moreover have "List.map_filter (\<lambda>l. match_quoted (trim l)) (map quoted_line ls) = map quoted_text ls"
    using assms by (rule map_filter_quoted_lines)
  ultimately show ?thesis by (simp add: quoted_lines_def)
qed

lemma suggestions_well_formed:
  assumes "\<not> sublist start_marker p" "\<not> sublist end_marker b"
    and "b = ws1 @ join_lines (map quoted_line ls) @ ws2"
    and "list_all is_white_space ws1" "list_all is_white_space ws2"
    and "list_all well_formed_line ls"
  shows "suggestions (p @ start_marker @ b @ end_marker @ sfx) = map quoted_text ls"
proof -
  have "trim b = trim (join_lines (map quoted_line ls))"
    using assms(3-5) trim_white_space_prepend trim_white_space_append
    by (metis append.assoc)
  then have "quoted_lines (trim b) = map quoted_text ls"
    using assms(6) by (simp add: quoted_lines_trim quoted_lines_join)
  moreover have "b = [] \<Longrightarrow> ls = []"
  proof (cases ls)
    case Nil
    then show ?thesis by simp
  next
    case (Cons a as)
    assume "b = []"
    with assms(3) Cons show ?thesis
      by (cases as) (auto simp: quoted_line_def split: prod.splits)
  qed
  ultimately show ?thesis
    using assms(1,2) by (auto simp: suggestions_first)
qed

lemma processAndDisplaySuggestions_suggestions:
  "processAndDisplaySuggestions fullResponse st =
     (if suggestions fullResponse = [] then st
      else st\<lparr>heap := heap st @ [SuggestionsEl (suggestions fullResponse)],
              chatContainer := chatContainer st @ [length (heap st)]\<rparr>)"
  by (simp add: processAndDisplaySuggestions_def suggestions_def Let_def
      split: option.splits prod.splits)

section \<open>The page after a send and after initialization\<close>

lemma set_content_twice: "set_content el c2 (set_content el c1 st) = set_content el c2 st"
  by (cases "heap st ! el") (simp_all add: set_content_def)

lemma stream_loop_append:
  "stream_loop marked el (xs @ ys) s = stream_loop marked el ys (stream_loop marked el xs s)"
proof (induction xs arbitrary: s)
  case Nil
  then show ?case by (cases s) simp
next
  case (Cons x xs)
  then show ?case by (cases s) simp
qed



lemma set_content_after_stream_loop:
  "set_content el c (snd (stream_loop marked el chunks (buf, st))) = set_content el c st"
proof (induction chunks arbitrary: buf st)
  case Nil
  then show ?case by simp
next
  case (Cons chunk chunks)
  then show ?case by (simp add: set_content_twice)
qed

lemma remove_first_found_result:
  "remove_first_found remove_in_html h els = Some (h', els') \<Longrightarrow>
     length h' = length h \<and> set els' \<subseteq> set els"
proof (induction els arbitrary: els')
  case Nil
  then show ?case by simp
next
  case (Cons el els)
  show ?case
  proof (cases "if el < length h then find_in_child remove_in_html (h ! el) else NotFound")
    case NotFound
    with Cons.prems obtain els'' where
      "remove_first_found remove_in_html h els = Some (h', els'')" "els' = el # els''"
      by auto
    with Cons.IH show ?thesis by fastforce
  next
    case FoundChild
    with Cons.prems show ?thesis by auto
  next
    case (FoundInside e)
    with Cons.prems show ?thesis by auto
  qed
qed

lemma heap_remove_existing_suggestions:
  "length (heap (remove_existing_suggestions remove_in_html st)) = length (heap st)"
  by (auto simp: remove_existing_suggestions_def split: option.splits
      dest: remove_first_found_result)

lemma valid_refs_remove_existing_suggestions:
  "valid_refs st \<Longrightarrow> valid_refs (remove_existing_suggestions remove_in_html st)"
  by (auto simp: valid_refs_def remove_existing_suggestions_def list_all_iff
      split: option.splits dest!: remove_first_found_result)

text \<open>
  Two bubbles that hold nothing to find, appended to a page without dangling references,
  do not change what the search finds.
\<close>

lemma remove_first_found_appended:
  assumes "find_in_child remove_in_html u = NotFound" "find_in_child remove_in_html b = NotFound"
  shows "\<forall>el \<in> set els. el < length h \<Longrightarrow>
     remove_first_found remove_in_html (h @ [u, b]) (els @ [length h, Suc (length h)])
       = map_option (\<lambda>(h', els'). (h' @ [u, b], els' @ [length h, Suc (length h)]))
           (remove_first_found remove_in_html h els)"
proof (induction els)
  case Nil
  from assms show ?case by (simp add: nth_append)
next
  case (Cons el els)
  then have el: "el < length h" and els: "\<forall>el \<in> set els. el < length h" by simp_all
  show ?case
  proof (cases "find_in_child remove_in_html (h ! el)")
    case NotFound
    with el Cons.IH [OF els] show ?thesis
      by (simp add: nth_append option.map_comp comp_def case_prod_beta)
  next
    case FoundChild
    with el show ?thesis by (simp add: nth_append)
  next
    case (FoundInside e)
    with el show ?thesis by (simp add: nth_append list_update_append)
  qed
qed

text \<open>
  An element of the class in the HTML of a bubble comes before a suggestions container after
  the bubble: the search takes it out of the bubble and the container stays.
\<close>

lemma element_in_bubble_is_removed_first:
  "remove_first_found
     (\<lambda>html. if html = js ''<p class=\"suggestions-container\">x</p>ok'' then Some (js ''ok'')
             else None)
     [MessageEl Bot (InnerHTML (js ''<p class=\"suggestions-container\">x</p>ok'')),
      SuggestionsEl [js ''q'']] [0, 1]
   = Some ([MessageEl Bot (InnerHTML (js ''ok'')), SuggestionsEl [js ''q'']], [0, 1]) \<and>
   remove_first_found (\<lambda>html. None)
     [MessageEl Bot (InnerHTML (js ''ok'')), SuggestionsEl [js ''q'']] [0, 1]
   = Some ([MessageEl Bot (InnerHTML (js ''ok'')), SuggestionsEl [js ''q'']], [0])"
  by (simp add: find_in_child_def)

text \<open>The page after the two bubbles of a send are appended and the old suggestions removed.\<close>

lemma send_prologue:
  assumes "valid_refs st"
  shows "remove_existing_suggestions remove_in_html
           (snd (appendMessage Bot (setLoading True
              (set_content (length (heap st)) (TextContent userMessage)
                 (snd (appendMessage User st))))))
         = (remove_existing_suggestions remove_in_html st)
             \<lparr>heap := heap (remove_existing_suggestions remove_in_html st) @
                        [MessageEl User (TextContent userMessage), MessageEl Bot NoContent],
              chatContainer := chatContainer (remove_existing_suggestions remove_in_html st) @
                                 [length (heap st), Suc (length (heap st))],
              input_disabled := True, send_disabled := True, send_content := LoadingSpinner\<rparr>"
proof -
  let ?n = "length (heap st)"
  let ?u = "MessageEl User (TextContent userMessage)"
  let ?b = "MessageEl Bot NoContent"
  let ?st2 = "snd (appendMessage Bot (setLoading True
              (set_content ?n (TextContent userMessage) (snd (appendMessage User st)))))"
  have st2: "?st2 = st\<lparr>heap := heap st @ [?u, ?b],
              chatContainer := chatContainer st @ [?n, Suc ?n],
              input_disabled := True, send_disabled := True, send_content := LoadingSpinner\<rparr>"
    by (simp add: appendMessage_def set_content_def setLoading_def)
  have old: "\<forall>el \<in> set (chatContainer st). el < ?n"
    using assms by (simp add: valid_refs_def list_all_iff)
  have "remove_first_found remove_in_html (heap st @ [?u, ?b])
          (chatContainer st @ [?n, Suc ?n])
      = map_option (\<lambda>(h', els'). (h' @ [?u, ?b], els' @ [?n, Suc ?n]))
          (remove_first_found remove_in_html (heap st) (chatContainer st))"
    using _ _ old by (rule remove_first_found_appended) (simp_all add: find_in_child_def)
  then show ?thesis
    unfolding st2
    by (auto simp: remove_existing_suggestions_def split: option.splits)
qed

lemma message_log_appended:
  assumes "valid_refs st"
  shows "message_log (st\<lparr>heap := heap st @ new,
                           chatContainer := chatContainer st @ map ((+) (length (heap st))) [0..<length new]\<rparr>)
         = message_log st @ new"
proof -
  have "\<forall>el \<in> set (chatContainer st). (heap st @ new) ! el = heap st ! el"
    using assms by (simp add: valid_refs_def list_all_iff nth_append)
  moreover have "map ((!) (heap st @ new)) (map ((+) (length (heap st))) [0..<length new]) = new"
    by (intro nth_equalityI) simp_all
  ultimately show ?thesis by (simp add: message_log_def)
qed

lemma remove_existing_suggestions_cases:
  obtains h els where
    "remove_existing_suggestions remove_in_html st = st\<lparr>heap := h, chatContainer := els\<rparr>"
    "length h = length (heap st)"
proof (cases "remove_first_found remove_in_html (heap st) (chatContainer st)")
  case None
  then have "remove_existing_suggestions remove_in_html st
      = st\<lparr>heap := heap st, chatContainer := chatContainer st\<rparr>"
    by (simp add: remove_existing_suggestions_def)
  then show ?thesis using that by blast
next
  case (Some r)
  obtain h els where r: "r = (h, els)" by (cases r)
  with Some have "remove_existing_suggestions remove_in_html st
      = st\<lparr>heap := h, chatContainer := els\<rparr>"
    by (simp add: remove_existing_suggestions_def)
  moreover from Some r have "length h = length (heap st)"
    by (auto dest: remove_first_found_result)
  ultimately show ?thesis using that by blast
qed

lemma send_failed_stream:
  assumes "userMessage \<noteq> []" "chat st \<noteq> None" "valid_refs st"
  shows "sendMessageAndStreamResponse marked remove_in_html (Stream chunks (Some error))
           userMessage st =
     (remove_existing_suggestions remove_in_html st)
       \<lparr>heap := heap (remove_existing_suggestions remove_in_html st) @
          [MessageEl User (TextContent userMessage),
           MessageEl Bot (InnerHTML
             (js ''Ocorreu um erro. Por favor, tente novamente.<br><br><code>'' @
              errorMessage error @ js ''</code>''))],
        chatContainer := chatContainer (remove_existing_suggestions remove_in_html st) @
                           [length (heap st), Suc (length (heap st))],
        input_disabled := False, input_focused := True, send_disabled := False,
        send_content := SendButtonIcon, remote_calls := remote_calls st @ [userMessage]\<rparr>"
proof -
  let ?n = "length (heap st)"
  let ?html = "InnerHTML (js ''Ocorreu um erro. Por favor, tente novamente.<br><br><code>'' @
              errorMessage error @ js ''</code>'')"
  from assms(2) obtain session where c: "chat st = Some session" by auto
  obtain h els where r:
    "remove_existing_suggestions remove_in_html st = st\<lparr>heap := h, chatContainer := els\<rparr>"
    and h: "length h = ?n"
    by (rule remove_existing_suggestions_cases)
  define st1 where "st1 = snd (appendMessage User st)"
  define st2 where "st2 = snd (appendMessage Bot (setLoading True
              (set_content ?n (TextContent userMessage) st1)))"
  define st3 where "st3 = remove_existing_suggestions remove_in_html st2"
  define st4 where "st4 = st3\<lparr>remote_calls := remote_calls st3 @ [userMessage]\<rparr>"
  have u: "appendMessage User st = (?n, st1)"
    by (simp add: st1_def appendMessage_def)
  have b: "appendMessage Bot (setLoading True
              (set_content ?n (TextContent userMessage) st1)) = (Suc ?n, st2)"
    by (simp add: st1_def st2_def appendMessage_def set_content_def setLoading_def)
  have t: "try_block marked (Stream chunks (Some error)) userMessage (Suc ?n) st3
        = Inl (error, snd (stream_loop marked (Suc ?n) chunks ([], st4)))"
    by (simp add: try_block_def st4_def Let_def split: prod.splits)
  have "sendMessageAndStreamResponse marked remove_in_html (Stream chunks (Some error))
          userMessage st
      = (setLoading False (set_content (Suc ?n) ?html
           (snd (stream_loop marked (Suc ?n) chunks ([], st4)))))\<lparr>input_focused := True\<rparr>"
    using assms(1) c by (simp add: sendMessageAndStreamResponse_def u b t st3_def [symmetric])
  also have "\<dots> = (setLoading False (set_content (Suc ?n) ?html st4))\<lparr>input_focused := True\<rparr>"
    by (simp only: set_content_after_stream_loop)
  also have "\<dots> = (remove_existing_suggestions remove_in_html st)
       \<lparr>heap := heap (remove_existing_suggestions remove_in_html st) @
          [MessageEl User (TextContent userMessage), MessageEl Bot ?html],
        chatContainer := chatContainer (remove_existing_suggestions remove_in_html st) @
                           [?n, Suc ?n],
        input_disabled := False, input_focused := True, send_disabled := False,
        send_content := SendButtonIcon, remote_calls := remote_calls st @ [userMessage]\<rparr>"
    unfolding st4_def st3_def st2_def st1_def send_prologue [OF assms(3)] r
    using h by (simp add: set_content_def setLoading_def nth_append list_update_append)
  finally show ?thesis .
qed

lemma initializeApp_without_key:
  assumes "API_KEY = None \<or> API_KEY = Some []"
  shows "initializeApp marked create API_KEY st =
     st\<lparr>heap := heap st @ [MessageEl Bot (InnerHTML configuration_error_html)],
        chatContainer := chatContainer st @ [length (heap st)],
        input_disabled := True, input_placeholder := disabled_placeholder,
        send_disabled := True\<rparr>"
proof -
  from assms have "create_session create API_KEY = Inl api_key_missing"
    by (auto simp: create_session_def)
  then show ?thesis
    by (simp add: initializeApp_def appendMessage_def set_content_def)
qed

lemma sends_without_session:
  "chat st = None \<Longrightarrow>
     foldl (\<lambda>s (resp, userMessage).
              sendMessageAndStreamResponse marked remove_in_html resp userMessage s)
       st attempts = st"
  by (induction attempts) (auto simp: sendMessageAndStreamResponse_def)

text \<open>
  The chat container of the initial page has no dangling reference, and initialization and
  every send keep it so: the pages the script reaches are the pages the statements below
  about the chat container speak of.
\<close>

lemma valid_refs_initial_page: "valid_refs initial_page"
  by (simp add: valid_refs_def initial_page_def)

lemma valid_refs_appendMessage: "valid_refs st \<Longrightarrow> valid_refs (snd (appendMessage sender st))"
  by (auto simp: valid_refs_def appendMessage_def list_all_iff)

lemma valid_refs_set_content: "valid_refs st \<Longrightarrow> valid_refs (set_content el c st)"
  by (simp add: valid_refs_def set_content_def)

lemma valid_refs_setLoading: "valid_refs st \<Longrightarrow> valid_refs (setLoading isLoading st)"
  by (simp add: valid_refs_def setLoading_def)

lemma valid_refs_processAndDisplaySuggestions:
  "valid_refs st \<Longrightarrow> valid_refs (processAndDisplaySuggestions fullResponse st)"
  by (auto simp: valid_refs_def processAndDisplaySuggestions_suggestions list_all_iff)

lemma valid_refs_stream_loop:
  "valid_refs st \<Longrightarrow> valid_refs (snd (stream_loop marked el chunks (buf, st)))"
  by (induction chunks arbitrary: buf st) (simp_all add: valid_refs_set_content)

lemma valid_refs_sendMessageAndStreamResponse:
  assumes "valid_refs st"
  shows "valid_refs (sendMessageAndStreamResponse marked remove_in_html resp userMessage st)"
proof (cases "userMessage = [] \<or> chat st = None")
  case True
  with assms show ?thesis by (simp add: sendMessageAndStreamResponse_def)
next
  case False
  define st2 where "st2 = snd (appendMessage Bot (setLoading True
      (set_content (fst (appendMessage User st)) (TextContent userMessage)
         (snd (appendMessage User st)))))"
  define el where "el = fst (appendMessage Bot (setLoading True
      (set_content (fst (appendMessage User st)) (TextContent userMessage)
         (snd (appendMessage User st)))))"
  define st3 where "st3 = remove_existing_suggestions remove_in_html st2"
  have v3: "valid_refs st3"
    unfolding st3_def st2_def using assms
    by (intro valid_refs_remove_existing_suggestions valid_refs_appendMessage
        valid_refs_setLoading valid_refs_set_content)
  then have v4: "valid_refs (st3\<lparr>remote_calls := remote_calls st3 @ [userMessage]\<rparr>)"
    by (simp add: valid_refs_def)
  have "valid_refs (case try_block marked resp userMessage el st3 of
                      Inr st' \<Rightarrow> st'
                    | Inl (error, st') \<Rightarrow>
                        set_content el
                          (InnerHTML
                            (js ''Ocorreu um erro. Por favor, tente novamente.<br><br><code>'' @
                             errorMessage error @ js ''</code>'')) st')"
  proof (cases resp)
    case (Rejected e)
    with v4 show ?thesis by (simp add: try_block_def valid_refs_set_content)
  next
    case (Stream chunks fin)
    obtain buf st5 where l: "stream_loop marked el chunks
        ([], st3\<lparr>remote_calls := remote_calls st3 @ [userMessage]\<rparr>) = (buf, st5)"
      by (cases "stream_loop marked el chunks
        ([], st3\<lparr>remote_calls := remote_calls st3 @ [userMessage]\<rparr>)")
    with valid_refs_stream_loop [OF v4, of marked el chunks "[]"] have "valid_refs st5" by simp
    with Stream l show ?thesis
      by (cases fin)
        (simp_all add: try_block_def valid_refs_set_content
          valid_refs_processAndDisplaySuggestions)
  qed
  then have "valid_refs ((setLoading False
      (case try_block marked resp userMessage el st3 of
         Inr st' \<Rightarrow> st'
       | Inl (error, st') \<Rightarrow>
           set_content el
             (InnerHTML
               (js ''Ocorreu um erro. Por favor, tente novamente.<br><br><code>'' @
                errorMessage error @ js ''</code>'')) st'))\<lparr>input_focused := True\<rparr>)"
    by (simp add: valid_refs_def setLoading_def)
  with False show ?thesis
    unfolding sendMessageAndStreamResponse_def st3_def st2_def el_def
    by (auto simp: Let_def case_prod_beta)
qed

lemma valid_refs_initializeApp:
  "valid_refs st \<Longrightarrow> valid_refs (initializeApp marked create API_KEY st)"
  by (auto simp: valid_refs_def initializeApp_def displayInitialGreeting_def appendMessage_def
      set_content_def list_all_iff split: sum.splits)

section \<open>Texts without a block\<close>

text \<open>
  C6. When the start marker does not occur in the text, or the end marker does not occur in
  it, or no end marker occurs after the first start marker (as when the markers are
  reversed), the parser returns no suggestion, and \<open>processAndDisplaySuggestions\<close>
  returns normally with the page as it was: no container, no error bubble.
\<close>

theorem no_block_no_suggestions:
  assumes "\<not> sublist start_marker fullResponse \<or> \<not> sublist end_marker fullResponse \<or>
     (\<exists>p r. fullResponse = p @ start_marker @ r \<and> \<not> sublist start_marker p \<and>
        \<not> sublist end_marker r)"
  shows "suggestions fullResponse = [] \<and> processAndDisplaySuggestions fullResponse st = st"
proof -
  have "match_block fullResponse = None"
    using assms
  proof (elim disjE exE conjE)
    assume "\<not> sublist start_marker fullResponse"
    then have "\<not> (\<exists>b c q. fullResponse = b @ start_marker @ c @ end_marker @ q)" by auto
    then show ?thesis by (rule match_block_None)
  next
    assume n: "\<not> sublist end_marker fullResponse"
    have "\<not> (\<exists>b c q. fullResponse = b @ start_marker @ c @ end_marker @ q)"
    proof
      assume "\<exists>b c q. fullResponse = b @ start_marker @ c @ end_marker @ q"
      then obtain b c q where "fullResponse = (b @ start_marker @ c) @ end_marker @ q" by auto
      then have "sublist end_marker fullResponse" by (metis sublist_appendI)
      with n show False by simp
    qed
    then show ?thesis by (rule match_block_None)
  next
    fix p r
    assume "fullResponse = p @ start_marker @ r" "\<not> sublist start_marker p"
      "\<not> sublist end_marker r"
    then show ?thesis by (rule no_block_after_first_start)
  qed
  then show ?thesis by (simp add: suggestions_None processAndDisplaySuggestions_None)
qed

theorem no_block_no_suggestions_witness:
  "js ''[/SUGGESTIONS]\<newline>\"a\"\<newline>[SUGGESTIONS]'' =
     js ''[/SUGGESTIONS]\<newline>\"a\"\<newline>'' @ start_marker @ [] \<and>
   \<not> sublist start_marker (js ''[/SUGGESTIONS]\<newline>\"a\"\<newline>'') \<and>
   \<not> sublist end_marker [] \<and>
   suggestions (js ''[/SUGGESTIONS]\<newline>\"a\"\<newline>[SUGGESTIONS]'') = [] \<and>
   processAndDisplaySuggestions (js ''[/SUGGESTIONS]\<newline>\"a\"\<newline>[SUGGESTIONS]'') initial_page
     = initial_page"
proof -
  have d: "js ''[/SUGGESTIONS]\<newline>\"a\"\<newline>[SUGGESTIONS]'' =
      js ''[/SUGGESTIONS]\<newline>\"a\"\<newline>'' @ start_marker @ []"
    by (simp add: js_def start_marker_def)
  have s: "\<not> sublist start_marker (js ''[/SUGGESTIONS]\<newline>\"a\"\<newline>'')"
    by (simp add: start_marker_def js_def sublist_code)
  have e: "\<not> sublist end_marker []"
    by (simp add: end_marker_def js_def)
  from d s e have h:
    "\<not> sublist start_marker (js ''[/SUGGESTIONS]\<newline>\"a\"\<newline>[SUGGESTIONS]'') \<or>
     \<not> sublist end_marker (js ''[/SUGGESTIONS]\<newline>\"a\"\<newline>[SUGGESTIONS]'') \<or>
     (\<exists>p r. js ''[/SUGGESTIONS]\<newline>\"a\"\<newline>[SUGGESTIONS]'' = p @ start_marker @ r \<and>
        \<not> sublist start_marker p \<and> \<not> sublist end_marker r)"
    by blast
  from no_block_no_suggestions [OF h, of initial_page] d s e show ?thesis by blast
qed

section \<open>Well-formed blocks\<close>

text \<open>
  C1, as the program has it. In a text \<open>p @ start_marker @ b @ end_marker @ sfx\<close> where
  \<open>p\<close> contains no start marker and \<open>b\<close> no end marker, and \<open>b\<close> is, between
  white space, N well-formed lines joined by newlines, the parser returns exactly the N
  quoted texts, in the order of the lines: nothing is dropped, merged or cut off, whatever
  N is.
\<close>

theorem well_formed_block_suggestions:
  assumes "\<not> sublist start_marker p" "\<not> sublist end_marker b"
    and "b = ws1 @ join_lines (map quoted_line ls) @ ws2"
    and "list_all is_white_space ws1" "list_all is_white_space ws2"
    and "list_all well_formed_line ls"
  shows "suggestions (p @ start_marker @ b @ end_marker @ sfx) = map quoted_text ls \<and>
         length (suggestions (p @ start_marker @ b @ end_marker @ sfx)) = length ls"
  using suggestions_well_formed [OF assms] by simp

theorem well_formed_block_suggestions_witness:
  "\<not> sublist start_marker (js (''Ol'' @ [CHR 0xE1] @ ''!\<newline>'')) \<and>
   \<not> sublist end_marker (js ''\<newline>\"A?\"\<newline>  \"B?\",\<newline>\"A?\"\<newline>- \"C?\" or \"D?\"\<newline>'') \<and>
   js ''\<newline>\"A?\"\<newline>  \"B?\",\<newline>\"A?\"\<newline>- \"C?\" or \"D?\"\<newline>'' =
     js ''\<newline>'' @
     join_lines (map quoted_line
       [([], js ''A?'', []), (js ''  '', js ''B?'', js '',''), ([], js ''A?'', []),
        (js ''- '', js ''C?'', js '' or \"D?\"'')]) @
     js ''\<newline>'' \<and>
   list_all is_white_space (js ''\<newline>'') \<and>
   list_all well_formed_line
     [([], js ''A?'', []), (js ''  '', js ''B?'', js '',''), ([], js ''A?'', []),
      (js ''- '', js ''C?'', js '' or \"D?\"'')] \<and>
   suggestions (js (''Ol'' @ [CHR 0xE1] @ ''!\<newline>'') @ start_marker @
       js ''\<newline>\"A?\"\<newline>  \"B?\",\<newline>\"A?\"\<newline>- \"C?\" or \"D?\"\<newline>'' @ end_marker @ js '' bye'')
     = [js ''A?'', js ''B?'', js ''A?'', js ''C?'']"
proof -
  have p: "\<not> sublist start_marker (js (''Ol'' @ [CHR 0xE1] @ ''!\<newline>''))"
    by (simp add: start_marker_def js_def sublist_code)
  have b: "\<not> sublist end_marker (js ''\<newline>\"A?\"\<newline>  \"B?\",\<newline>\"A?\"\<newline>- \"C?\" or \"D?\"\<newline>'')"
    by (simp add: end_marker_def js_def sublist_code)
  have f: "js ''\<newline>\"A?\"\<newline>  \"B?\",\<newline>\"A?\"\<newline>- \"C?\" or \"D?\"\<newline>'' =
     js ''\<newline>'' @
     join_lines (map quoted_line
       [([], js ''A?'', []), (js ''  '', js ''B?'', js '',''), ([], js ''A?'', []),
        (js ''- '', js ''C?'', js '' or \"D?\"'')]) @
     js ''\<newline>''"
    by (simp add: js_def quoted_line_def newline_def dquote_def)
  have w: "list_all is_white_space (js ''\<newline>'')"
    by (simp add: js_def is_white_space_def is_line_terminator_def)
  have l: "list_all well_formed_line
     [([], js ''A?'', []), (js ''  '', js ''B?'', js '',''), ([], js ''A?'', []),
      (js ''- '', js ''C?'', js '' or \"D?\"'')]"
    by (simp add: well_formed_line_def js_def is_line_terminator_def newline_def dquote_def)
  from well_formed_block_suggestions [OF p b f w w l, of "js '' bye''"] p b f w l
  show ?thesis by (simp add: quoted_text_def)
qed

text \<open>
  Without these conditions the statement fails. When \<open>p\<close> holds an earlier block, the
  suggestions are those of the earlier block; a quoted text with the end marker in it closes
  the block early, and a quoted text with a carriage return in it is not matched by
  \<open>.*?\<close>: both lines are dropped.
\<close>

theorem suggestions_of_later_block_counterexample:
  "suggestions (js ''[SUGGESTIONS]\"x\"[/SUGGESTIONS]'' @ start_marker @
       join_lines (map quoted_line [([], js ''a'', []), ([], js ''b'', [])]) @ end_marker)
     = [js ''x''] \<and>
   suggestions (start_marker @
       join_lines (map quoted_line [([], js ''see [/SUGGESTIONS] tag'', [])]) @ end_marker)
     = [] \<and>
   suggestions (start_marker @
       join_lines (map quoted_line [([], js ''a'' @ [0x0D] @ js ''b'', [])]) @ end_marker)
     = []"
  by (simp add: suggestions_def quoted_lines_def List.map_filter_def block_at_def
      quoted_line_def start_marker_def end_marker_def js_def trim_def is_white_space_def
      is_line_terminator_def newline_def dquote_def)



section \<open>The text shown while streaming\<close>

text \<open>
  C7. A buffer that contains no start marker followed, anywhere later, by an end marker (no
  complete marker pair) is shown as it is, trimmed: nothing else is removed from it.
\<close>

theorem displayText_without_closed_block:
  assumes "\<not> (\<exists>before cap rest. bufferedText = before @ start_marker @ cap @ end_marker @ rest)"
  shows "displayText bufferedText = trim bufferedText"
  using assms by (simp add: displayText_def strip_blocks_None match_block_None)

theorem displayText_without_closed_block_witness:
  "\<not> (\<exists>before cap rest.
        js '' Hi [SUGGESTIONS] \"a\" '' = before @ start_marker @ cap @ end_marker @ rest) \<and>
   displayText (js '' Hi [SUGGESTIONS] \"a\" '') = js ''Hi [SUGGESTIONS] \"a\"''"
proof -
  have "match_block (js '' Hi [SUGGESTIONS] \"a\" '') = None"
    by (simp add: js_def block_at_def start_marker_def end_marker_def)
  then have h: "\<not> (\<exists>before cap rest.
        js '' Hi [SUGGESTIONS] \"a\" '' = before @ start_marker @ cap @ end_marker @ rest)"
    using match_block_None_iff by blast
  have "trim (js '' Hi [SUGGESTIONS] \"a\" '') = js ''Hi [SUGGESTIONS] \"a\"''"
    by (simp add: js_def trim_def is_white_space_def is_line_terminator_def)
  with displayText_without_closed_block [OF h] h show ?thesis by simp
qed

text \<open>
  C2. The buffer of the scenario, received up to the start marker and one quoted line, with
  no end marker yet: the expression matches closed blocks only, so the text computed for
  display is the whole buffer, with the start marker and the quoted line in it, and not
  the greeting alone.
\<close>

theorem displayText_open_block_is_shown:
  "displayText (js (''Ol'' @ [CHR 0xE1] @ ''!\<newline>[SUGGESTIONS]\<newline>\"Pergunta 1?\"''))
     = js (''Ol'' @ [CHR 0xE1] @ ''!\<newline>[SUGGESTIONS]\<newline>\"Pergunta 1?\"'') \<and>
   displayText (js (''Ol'' @ [CHR 0xE1] @ ''!\<newline>[SUGGESTIONS]\<newline>\"Pergunta 1?\"''))
     \<noteq> js (''Ol'' @ [CHR 0xE1] @ ''!'')"
  by (simp add: displayText_def strip_blocks.simps js_def block_at_def start_marker_def
      end_marker_def trim_def is_white_space_def is_line_terminator_def)

text \<open>
  C8. The text computed for display depends on the buffer alone: the expression is created
  anew at each evaluation and \<open>replace\<close> starts at the beginning of the buffer, so the
  model is a function of the buffer. In the loop, a delta that does not make the buffer grow
  (an empty one) evaluates the display a second time on the same buffer, and leaves the
  buffer and the page, with the text shown in the bubble, as they were after the delta
  before it.
\<close>

theorem display_unchanged_without_growth:
  "stream_loop marked botMessageEl (chunks @ [chunk, Some []]) (bufferedText, st)
     = stream_loop marked botMessageEl (chunks @ [chunk]) (bufferedText, st)"
proof -
  obtain buf st' where s: "stream_loop marked botMessageEl chunks (bufferedText, st) = (buf, st')"
    by (cases "stream_loop marked botMessageEl chunks (bufferedText, st)")
  then show ?thesis
    by (simp add: stream_loop_append chunk_text_def set_content_twice)
qed

section \<open>Texts with several blocks\<close>

text \<open>
  A text with two or more blocks, each closed by the first end marker after its start
  marker, and no start marker in the text outside the blocks: the parser returns the
  suggestions of the first block only (what it returns for that block alone), and the text
  computed for display from the whole text is the text outside the blocks, trimmed.
\<close>

lemma first_block_and_closed_blocks:
  assumes "\<not> sublist start_marker t0"
    and "\<forall>(b, t) \<in> set ((b1, t1) # (b2, t2) # blocks).
           \<not> sublist end_marker b \<and> \<not> sublist start_marker t"
  shows "suggestions (t0 @ concat (map (\<lambda>(b, t). start_marker @ b @ end_marker @ t)
                                      ((b1, t1) # (b2, t2) # blocks)))
           = suggestions (start_marker @ b1 @ end_marker) \<and>
         displayText (t0 @ concat (map (\<lambda>(b, t). start_marker @ b @ end_marker @ t)
                                      ((b1, t1) # (b2, t2) # blocks)))
           = trim (t0 @ t1 @ t2 @ concat (map snd blocks))"
proof -
  from assms(2) have b1: "\<not> sublist end_marker b1" by simp
  have "suggestions (t0 @ start_marker @ b1 @ end_marker @
          (t1 @ concat (map (\<lambda>(b, t). start_marker @ b @ end_marker @ t) ((b2, t2) # blocks))))
        = (if b1 = [] then [] else quoted_lines (trim b1))"
    using assms(1) b1 by (rule suggestions_first)
  moreover have "suggestions ([] @ start_marker @ b1 @ end_marker @ [])
        = (if b1 = [] then [] else quoted_lines (trim b1))"
    using _ b1 by (rule suggestions_first) (use start_marker_head in simp)
  ultimately have "suggestions (t0 @ concat (map (\<lambda>(b, t). start_marker @ b @ end_marker @ t)
                                      ((b1, t1) # (b2, t2) # blocks)))
           = suggestions (start_marker @ b1 @ end_marker)"
    by simp
  moreover have "strip_blocks (t0 @ concat (map (\<lambda>(b, t). start_marker @ b @ end_marker @ t)
                                      ((b1, t1) # (b2, t2) # blocks)))
           = t0 @ concat (map snd ((b1, t1) # (b2, t2) # blocks))"
    using assms by (rule strip_blocks_all)
  ultimately show ?thesis by (simp add: displayText_def)
qed

text \<open>
  C3. While such a text is streamed, the text computed for display after each delta is put
  in the bubble, and a block that is still open in the buffer is not removed from it. The
  text below has two well-formed blocks and comes in three deltas, cut inside the blocks
  (\<open>marked\<close> is the identity here, so the bubble holds the display text): after the
  first delta the bubble shows the start marker and the beginning of the first block's
  content, after the second it shows those of the second block, and only after the last
  delta is the content of both blocks gone.
\<close>

theorem open_blocks_are_shown_while_streaming:
  "fst (stream_loop id 0
          [Some (js ''Hi [SUGGESTIONS]\<newline>\"a''),
           Some (js ''\"\<newline>[/SUGGESTIONS] mid [SUGGESTIONS]\"b''),
           Some (js ''\"[/SUGGESTIONS] end'')]
          ([], snd (appendMessage Bot initial_page)))
     = js ''Hi [SUGGESTIONS]\<newline>\"a\"\<newline>[/SUGGESTIONS] mid [SUGGESTIONS]\"b\"[/SUGGESTIONS] end'' \<and>
   message_log (snd (stream_loop id 0
          [Some (js ''Hi [SUGGESTIONS]\<newline>\"a'')]
          ([], snd (appendMessage Bot initial_page))))
     = [MessageEl Bot (InnerHTML (js ''Hi [SUGGESTIONS]\<newline>\"a''))] \<and>
   message_log (snd (stream_loop id 0
          [Some (js ''Hi [SUGGESTIONS]\<newline>\"a''),
           Some (js ''\"\<newline>[/SUGGESTIONS] mid [SUGGESTIONS]\"b'')]
          ([], snd (appendMessage Bot initial_page))))
     = [MessageEl Bot (InnerHTML (js ''Hi  mid [SUGGESTIONS]\"b''))] \<and>
   message_log (snd (stream_loop id 0
          [Some (js ''Hi [SUGGESTIONS]\<newline>\"a''),
           Some (js ''\"\<newline>[/SUGGESTIONS] mid [SUGGESTIONS]\"b''),
           Some (js ''\"[/SUGGESTIONS] end'')]
          ([], snd (appendMessage Bot initial_page))))
     = [MessageEl Bot (InnerHTML (js ''Hi  mid  end''))]"
  by (simp add: chunk_text_def displayText_def strip_blocks.simps block_at_def
      start_marker_def end_marker_def js_def trim_def is_white_space_def
      is_line_terminator_def appendMessage_def set_content_def message_log_def
      initial_page_def)

section \<open>A stream that fails\<close>

text \<open>
  C5, as the program has it. A send with a message, on a page with a session, whose stream
  throws after any chunks were buffered, returns a page: the \<open>catch\<close> block takes every
  value the \<open>try\<close> block throws. The chat container then shows what it showed after
  the removal of the old suggestions, the user's bubble and the bot's bubble with the retry
  message, whatever the chunks were: the partial answer is not shown, and no suggestions
  container is appended. The retry message holds the message of the thrown value when that
  is an \<open>Error\<close>, and the fixed text \<open>An unknown error occurred.\<close> when it is any
  other value. The input and the send button are enabled again, and one remote call was
  made.
\<close>

theorem failed_stream_shows_retry_message:
  assumes "userMessage \<noteq> []" "chat st \<noteq> None" "valid_refs st"
  shows "message_log (sendMessageAndStreamResponse marked remove_in_html
                        (Stream chunks (Some error)) userMessage st)
           = message_log (remove_existing_suggestions remove_in_html st) @
               [MessageEl User (TextContent userMessage),
                MessageEl Bot (InnerHTML
                  (case error of
                     ErrorObject message \<Rightarrow>
                       js ''Ocorreu um erro. Por favor, tente novamente.<br><br><code>'' @
                       message @ js ''</code>''
                   | NotAnError v \<Rightarrow>
                       js (''Ocorreu um erro. Por favor, tente novamente.<br><br><code>'' @
                           ''An unknown error occurred.</code>'')))] \<and>
         input_disabled (sendMessageAndStreamResponse marked remove_in_html
                           (Stream chunks (Some error)) userMessage st) = False \<and>
         send_disabled (sendMessageAndStreamResponse marked remove_in_html
                          (Stream chunks (Some error)) userMessage st) = False \<and>
         remote_calls (sendMessageAndStreamResponse marked remove_in_html
                         (Stream chunks (Some error)) userMessage st)
           = remote_calls st @ [userMessage]"
proof -
  let ?r = "remove_existing_suggestions remove_in_html st"
  let ?new = "[MessageEl User (TextContent userMessage),
                MessageEl Bot (InnerHTML
                  (js ''Ocorreu um erro. Por favor, tente novamente.<br><br><code>'' @
                   errorMessage error @ js ''</code>''))]"
  have v: "valid_refs ?r" using assms(3) by (rule valid_refs_remove_existing_suggestions)
  have n: "length (heap ?r) = length (heap st)" by (rule heap_remove_existing_suggestions)
  have "message_log (?r\<lparr>heap := heap ?r @ ?new,
            chatContainer := chatContainer ?r @ map ((+) (length (heap ?r))) [0..<length ?new]\<rparr>)
        = message_log ?r @ ?new"
    using v by (rule message_log_appended)
  moreover have "map ((+) (length (heap ?r))) [0..<length ?new]
      = [length (heap st), Suc (length (heap st))]"
    by (simp add: upt_rec n)
  ultimately have l: "message_log (?r\<lparr>heap := heap ?r @ ?new,
            chatContainer := chatContainer ?r @ [length (heap st), Suc (length (heap st))]\<rparr>)
        = message_log ?r @ ?new"
    by simp
  have e: "js ''Ocorreu um erro. Por favor, tente novamente.<br><br><code>'' @
             errorMessage error @ js ''</code>''
      = (case error of
           ErrorObject message \<Rightarrow>
             js ''Ocorreu um erro. Por favor, tente novamente.<br><br><code>'' @
             message @ js ''</code>''
         | NotAnError v \<Rightarrow>
             js (''Ocorreu um erro. Por favor, tente novamente.<br><br><code>'' @
                 ''An unknown error occurred.</code>''))"
    by (cases error) (simp_all add: errorMessage_def js_def)
  from l show ?thesis
    unfolding send_failed_stream [OF assms] e
    by (simp add: message_log_def)
qed

theorem failed_stream_shows_retry_message_witness:
  "js ''hi'' \<noteq> [] \<and>
   chat (initializeApp id (\<lambda>key. Inr (Chat key)) (Some (js ''key'')) initial_page) \<noteq> None \<and>
   valid_refs (initializeApp id (\<lambda>key. Inr (Chat key)) (Some (js ''key'')) initial_page) \<and>
   message_log (sendMessageAndStreamResponse id (\<lambda>html. None)
       (Stream [Some (js ''Partial answer'')] (Some (ErrorObject (js ''boom'')))) (js ''hi'')
       (initializeApp id (\<lambda>key. Inr (Chat key)) (Some (js ''key'')) initial_page))
     = [MessageEl Bot (InnerHTML greeting),
        MessageEl User (TextContent (js ''hi'')),
        MessageEl Bot (InnerHTML
          (js ''Ocorreu um erro. Por favor, tente novamente.<br><br><code>boom</code>''))] \<and>
   input_disabled (sendMessageAndStreamResponse id (\<lambda>html. None)
       (Stream [Some (js ''Partial answer'')] (Some (ErrorObject (js ''boom'')))) (js ''hi'')
       (initializeApp id (\<lambda>key. Inr (Chat key)) (Some (js ''key'')) initial_page)) = False"
proof -
  let ?st = "initializeApp id (\<lambda>key. Inr (Chat key)) (Some (js ''key'')) initial_page"
  have st: "?st = initial_page\<lparr>heap := [MessageEl Bot (InnerHTML greeting)],
      chatContainer := [0], chat := Some (Chat (js ''key''))\<rparr>"
    by (simp add: initializeApp_def create_session_def displayInitialGreeting_def
        appendMessage_def set_content_def initial_page_def js_def)
  have m: "js ''hi'' \<noteq> []" by (simp add: js_def)
  have c: "chat ?st \<noteq> None" unfolding st by simp
  have v: "valid_refs ?st" unfolding st by (simp add: valid_refs_def)
  have l: "message_log (remove_existing_suggestions (\<lambda>html. None) ?st)
      = [MessageEl Bot (InnerHTML greeting)]"
    unfolding st
    by (simp add: remove_existing_suggestions_def find_in_child_def
        message_log_def initial_page_def)
  have e: "js ''Ocorreu um erro. Por favor, tente novamente.<br><br><code>'' @
      js ''boom'' @ js ''</code>''
      = js ''Ocorreu um erro. Por favor, tente novamente.<br><br><code>boom</code>''"
    by (simp add: js_def)
  from failed_stream_shows_retry_message [OF m c v, where marked = id
      and remove_in_html = "\<lambda>html. None" and chunks = "[Some (js ''Partial answer'')]"
      and error = "ErrorObject (js ''boom'')"] m c v
  show ?thesis unfolding l by (simp add: e)
qed

text \<open>
  The claim as stated, that the retry message includes the underlying error text of every
  failed stream, fails for a thrown value that is not an \<open>Error\<close>: when the stream throws
  the string \<open>boom\<close>, the bubble shows the fixed text and not the text thrown.
\<close>

theorem thrown_text_is_not_shown_counterexample:
  "message_log (sendMessageAndStreamResponse id (\<lambda>html. None)
       (Stream [Some (js ''Partial answer'')] (Some (NotAnError (js ''boom'')))) (js ''hi'')
       (initializeApp id (\<lambda>key. Inr (Chat key)) (Some (js ''key'')) initial_page))
     = [MessageEl Bot (InnerHTML greeting),
        MessageEl User (TextContent (js ''hi'')),
        MessageEl Bot (InnerHTML
          (js (''Ocorreu um erro. Por favor, tente novamente.<br><br><code>'' @
               ''An unknown error occurred.</code>'')))] \<and>
   \<not> sublist (js ''boom'')
       (js (''Ocorreu um erro. Por favor, tente novamente.<br><br><code>'' @
            ''An unknown error occurred.</code>''))"
proof -
  let ?st = "initializeApp id (\<lambda>key. Inr (Chat key)) (Some (js ''key'')) initial_page"
  have st: "?st = initial_page\<lparr>heap := [MessageEl Bot (InnerHTML greeting)],
      chatContainer := [0], chat := Some (Chat (js ''key''))\<rparr>"
    by (simp add: initializeApp_def create_session_def displayInitialGreeting_def
        appendMessage_def set_content_def initial_page_def js_def)
  have m: "js ''hi'' \<noteq> []" by (simp add: js_def)
  have c: "chat ?st \<noteq> None" unfolding st by simp
  have v: "valid_refs ?st" unfolding st by (simp add: valid_refs_def)
  have r: "remove_existing_suggestions (\<lambda>html. None) ?st = ?st"
    unfolding st by (simp add: remove_existing_suggestions_def find_in_child_def initial_page_def)
  have "message_log (sendMessageAndStreamResponse id (\<lambda>html. None)
       (Stream [Some (js ''Partial answer'')] (Some (NotAnError (js ''boom'')))) (js ''hi'') ?st)
     = [MessageEl Bot (InnerHTML greeting),
        MessageEl User (TextContent (js ''hi'')),
        MessageEl Bot (InnerHTML
          (js (''Ocorreu um erro. Por favor, tente novamente.<br><br><code>'' @
               ''An unknown error occurred.</code>'')))]"
    unfolding send_failed_stream [OF m c v] r
    unfolding st by (simp add: message_log_def errorMessage_def js_def initial_page_def)
  moreover have "\<not> sublist (js ''boom'')
       (js (''Ocorreu um erro. Por favor, tente novamente.<br><br><code>'' @
            ''An unknown error occurred.</code>''))"
    by (simp add: js_def sublist_code)
  ultimately show ?thesis by simp
qed

section \<open>Startup without a credential\<close>

text \<open>
  C4. When \<open>process.env.API_KEY\<close> is undefined or empty at startup, on a page without a
  session, \<open>initializeApp\<close> leaves the input and the send button disabled, appends
  exactly one bubble, with the configuration error, to the chat container, creates no
  session and makes no remote call; and every sequence of sends after it, whatever the
  messages, returns the page unchanged, so no remote call is made later either.
\<close>

theorem absent_credential_disables_the_page:
  assumes "API_KEY = None \<or> API_KEY = Some []" "chat st = None" "valid_refs st"
  shows "input_disabled (initializeApp marked create API_KEY st) \<and>
         send_disabled (initializeApp marked create API_KEY st) \<and>
         message_log (initializeApp marked create API_KEY st)
           = message_log st @ [MessageEl Bot (InnerHTML configuration_error_html)] \<and>
         chat (initializeApp marked create API_KEY st) = None \<and>
         remote_calls (initializeApp marked create API_KEY st) = remote_calls st \<and>
         foldl (\<lambda>s (resp, userMessage).
                  sendMessageAndStreamResponse marked remove_in_html resp userMessage s)
           (initializeApp marked create API_KEY st) attempts
           = initializeApp marked create API_KEY st"
proof -
  let ?st' = "initializeApp marked create API_KEY st"
  let ?new = "[MessageEl Bot (InnerHTML configuration_error_html)]"
  have i: "?st' = st\<lparr>heap := heap st @ ?new,
        chatContainer := chatContainer st @ [length (heap st)],
        input_disabled := True, input_placeholder := disabled_placeholder,
        send_disabled := True\<rparr>"
    using assms(1) by (rule initializeApp_without_key)
  have "message_log (st\<lparr>heap := heap st @ ?new,
            chatContainer := chatContainer st @ map ((+) (length (heap st))) [0..<length ?new]\<rparr>)
        = message_log st @ ?new"
    using assms(3) by (rule message_log_appended)
  then have l: "message_log ?st' = message_log st @ ?new"
    by (simp add: i message_log_def)
  from assms(2) have c: "chat ?st' = None" by (simp add: i)
  from c have "foldl (\<lambda>s (resp, userMessage).
      sendMessageAndStreamResponse marked remove_in_html resp userMessage s) ?st' attempts = ?st'"
    by (rule sends_without_session)
  with l c show ?thesis by (simp add: i)
qed

theorem absent_credential_disables_the_page_witness:
  "chat initial_page = None \<and> valid_refs initial_page \<and>
   input_disabled (initializeApp id (\<lambda>key. Inr (Chat key)) None initial_page) \<and>
   send_disabled (initializeApp id (\<lambda>key. Inr (Chat key)) None initial_page) \<and>
   message_log (initializeApp id (\<lambda>key. Inr (Chat key)) None initial_page)
     = [MessageEl Bot (InnerHTML configuration_error_html)] \<and>
   remote_calls (initializeApp id (\<lambda>key. Inr (Chat key)) None initial_page) = [] \<and>
   remote_calls (foldl
       (\<lambda>s (resp, userMessage).
          sendMessageAndStreamResponse id (\<lambda>html. None) resp userMessage s)
       (initializeApp id (\<lambda>key. Inr (Chat key)) None initial_page)
       [(Stream [Some (js ''ok'')] None, js ''hi''),
        (Rejected (NotAnError (js ''no'')), js ''again'')]) = []"
proof -
  have k: "(None :: jsstring option) = None \<or> (None :: jsstring option) = Some []" by simp
  have c: "chat initial_page = None" by (simp add: initial_page_def)
  have v: "valid_refs initial_page" by (simp add: initial_page_def valid_refs_def)
  have l: "message_log initial_page = []" by (simp add: initial_page_def message_log_def)
  have r: "remote_calls initial_page = []" by (simp add: initial_page_def)
  from absent_credential_disables_the_page [OF k c v, where marked = id
      and create = "\<lambda>key. Inr (Chat key)" and remove_in_html = "\<lambda>html. None"
      and attempts = "[(Stream [Some (js ''ok'')] None, js ''hi''),
                       (Rejected (NotAnError (js ''no'')), js ''again'')]"] c v
  show ?thesis unfolding l r by simp
qed

section \<open>A send without a message or without a session\<close>

text \<open>
  C10. The send operation called with an empty message, or while there is no session (before
  one was created, or after the configuration failed), returns the page as it was: no
  bubble is appended, the loading state is not touched, no suggestions container is removed
  and no remote call is logged. The form handler likewise leaves the page as it was when the
  trimmed input is empty.
\<close>

theorem send_without_message_or_session_is_noop:
  "(userMessage = [] \<or> chat st = None \<longrightarrow>
      sendMessageAndStreamResponse marked remove_in_html resp userMessage st = st) \<and>
   (trim (input_value st) = [] \<longrightarrow> handleFormSubmit marked remove_in_html resp st = st)"
  by (simp add: sendMessageAndStreamResponse_def handleFormSubmit_def)

theorem send_without_message_or_session_is_noop_witness:
  "chat initial_page = None \<and>
   sendMessageAndStreamResponse id (\<lambda>html. None) (Stream [Some (js ''ok'')] None) (js ''hi'')
       initial_page
     = initial_page \<and>
   trim (input_value initial_page) = [] \<and>
   handleFormSubmit id (\<lambda>html. None) (Stream [Some (js ''ok'')] None) initial_page
     = initial_page"
  using send_without_message_or_session_is_noop
    [where userMessage = "js ''hi''" and st = initial_page and marked = id
       and remove_in_html = "\<lambda>html. None" and resp = "Stream [Some (js ''ok'')] None"]
  by (simp add: initial_page_def trim_def)

end
